theory Spec2Isabelle
  imports Complex_Main "HOL-Library.Log_Nat"
begin

section \<open>Merkle tree of \<^verbatim>\<open>src/lab_2/merkle_tree.py\<close>\<close>

text \<open>
  The hash function is SHA-256 applied to the UTF-8 encoding of a Python string and
  rendered as a hexadecimal string:
  \<^verbatim>\<open>hashlib.sha256(s.encode('utf-8')).hexdigest()\<close>.
  This composition is the only way the module hashes anything (in
  \<^verbatim>\<open>calculate_hash\<close> and in \<^verbatim>\<open>verify_proof\<close>), so it is taken as one opaque
  parameter \<open>H\<close> from strings to strings. Nothing below assumes anything about \<open>H\<close>.
  Data blocks and hashes are Python strings, modelled as lists of characters; the hash of
  a node is the hexadecimal string that \<^verbatim>\<open>hexdigest\<close> returns, and the hash of an
  internal node is computed from the concatenation of its children's hexadecimal strings.
\<close>

type_synonym hash_fn = "string \<Rightarrow> string"

subsection \<open>Data model\<close>

text \<open>
  \<^verbatim>\<open>class MerkleNode\<close>: the flag \<^verbatim>\<open>is_leaf\<close> is the constructor tag. A leaf has
  \<^verbatim>\<open>left = right = None\<close> and carries its data block; an internal node has
  \<^verbatim>\<open>data = None\<close> and carries its two children. Both carry \<^verbatim>\<open>hash\<close>.
\<close>

datatype MerkleNode =
    is_leaf: Leaf (data: string) (hash: string)
  | Internal (left: MerkleNode) (right: MerkleNode) (hash: string)

text \<open>\<^verbatim>\<open>MerkleNode.calculate_hash\<close>: every argument it receives is a \<^verbatim>\<open>str\<close>.\<close>

definition calculate_hash :: "hash_fn \<Rightarrow> string \<Rightarrow> string" where
  "calculate_hash H d = H d"

text \<open>\<^verbatim>\<open>MerkleNode(data=block, is_leaf=True)\<close>\<close>

definition leaf_node :: "hash_fn \<Rightarrow> string \<Rightarrow> MerkleNode" where
  "leaf_node H block = Leaf block (calculate_hash H block)"

text \<open>\<^verbatim>\<open>MerkleNode(left=left, right=right, is_leaf=False)\<close>\<close>

definition parent_node :: "hash_fn \<Rightarrow> MerkleNode \<Rightarrow> MerkleNode \<Rightarrow> MerkleNode" where
  "parent_node H l r = Internal l r (calculate_hash H (hash l @ hash r))"

text \<open>
  The exceptions the module raises: \<^verbatim>\<open>ValueError\<close> on empty input (the
  specification's InvalidInput) and \<^verbatim>\<open>IndexError\<close> on a bad index (the
  specification's IndexOutOfRange).
\<close>

datatype error = ValueError | IndexError

record MerkleTree =
  data_blocks :: "string list"
  leaves :: "MerkleNode list"
  root :: "MerkleNode option"

type_synonym proof_path = "(string \<times> bool) list"

subsection \<open>Tree construction\<close>

text \<open>
  The inner \<^verbatim>\<open>for i in range(0, len(current_level), 2)\<close> loop of
  \<^verbatim>\<open>build_tree\<close>, with the loop variable \<open>i\<close> and the list \<open>next_level\<close> as
  arguments.
\<close>

function pair_loop ::
  "hash_fn \<Rightarrow> MerkleNode list \<Rightarrow> nat \<Rightarrow> MerkleNode list \<Rightarrow> MerkleNode list" where
  "pair_loop H current_level i next_level =
     (if i < length current_level then
        let l = current_level ! i;
            r = (if i + 1 < length current_level then current_level ! (i + 1)
                 else current_level ! i);
            parent = parent_node H l r
        in pair_loop H current_level (i + 2) (next_level @ [parent])
      else next_level)"
  by pat_completeness auto
termination
  by (relation "measure (\<lambda>(H, current_level, i, next_level). length current_level - i)") auto

declare pair_loop.simps [simp del]

text \<open>The list view of one pairing round, used to reason about the loops.\<close>

fun pair_up :: "hash_fn \<Rightarrow> MerkleNode list \<Rightarrow> MerkleNode list" where
  "pair_up H [] = []"
| "pair_up H [x] = [parent_node H x x]"
| "pair_up H (x # y # xs) = parent_node H x y # pair_up H xs"

lemma length_pair_up: "length (pair_up H xs) = (length xs + 1) div 2"
  by (induction H xs rule: pair_up.induct) auto

lemma pair_loop_drop:
  "i \<le> length cl \<Longrightarrow> pair_loop H cl i acc = acc @ pair_up H (drop i cl)"
proof (induction H cl i acc rule: pair_loop.induct)
  case (1 H cl i acc)
  show ?case
  proof (cases "i < length cl")
    case False
    then have "pair_loop H cl i acc = acc"
      by (subst pair_loop.simps) simp
    with False "1.prems" show ?thesis by simp
  next
    case True
    show ?thesis
    proof (cases "i + 1 < length cl")
      case True
      then have d: "drop i cl = cl ! i # cl ! (i + 1) # drop (i + 2) cl"
        by (metis Cons_nth_drop_Suc Suc_eq_plus1 add_2_eq_Suc' add_lessD1)
      from True have "pair_loop H cl i acc =
          pair_loop H cl (i + 2) (acc @ [parent_node H (cl ! i) (cl ! (i + 1))])"
        by (simp add: pair_loop.simps [of H cl i acc])
      also have "\<dots> = (acc @ [parent_node H (cl ! i) (cl ! (i + 1))]) @ pair_up H (drop (i + 2) cl)"
        using True "1.IH" [OF \<open>i < length cl\<close> refl refl refl] by simp
      finally show ?thesis by (simp add: d)
    next
      case False
      with \<open>i < length cl\<close> have len: "length cl = i + 1" by simp
      then have d: "drop i cl = [cl ! i]"
        by (metis Cons_nth_drop_Suc Suc_eq_plus1 \<open>i < length cl\<close> drop_all order_refl)
      from len have "pair_loop H cl i acc =
          pair_loop H cl (i + 2) (acc @ [parent_node H (cl ! i) (cl ! i)])"
        by (simp add: pair_loop.simps [of H cl i acc])
      also have "\<dots> = acc @ [parent_node H (cl ! i) (cl ! i)]"
        using len by (subst pair_loop.simps) simp
      finally show ?thesis by (simp add: d)
    qed
  qed
qed

lemma pair_loop_pair_up: "pair_loop H cl 0 [] = pair_up H cl"
  by (simp add: pair_loop_drop)

lemma length_pair_loop: "length (pair_loop H cl 0 []) = (length cl + 1) div 2"
  by (simp add: pair_loop_pair_up length_pair_up)

text \<open>The outer \<^verbatim>\<open>while len(current_level) > 1\<close> loop of \<^verbatim>\<open>build_tree\<close>.\<close>

function build_levels :: "hash_fn \<Rightarrow> MerkleNode list \<Rightarrow> MerkleNode list" where
  "build_levels H current_level =
     (if length current_level > 1 then build_levels H (pair_loop H current_level 0 [])
      else current_level)"
  by pat_completeness auto
termination
  by (relation "measure (\<lambda>(H, current_level). length current_level)")
     (auto simp: length_pair_loop)

declare build_levels.simps [simp del]

text \<open>
  \<^verbatim>\<open>MerkleTree.build_tree\<close>: sets \<^verbatim>\<open>self.leaves\<close>, runs the loops and sets
  \<^verbatim>\<open>self.root = current_level[0]\<close>, which raises \<^verbatim>\<open>IndexError\<close> on an empty list.
\<close>

definition build_tree :: "hash_fn \<Rightarrow> MerkleTree \<Rightarrow> error + MerkleTree" where
  "build_tree H self =
     (let self1 = self\<lparr>leaves := map (leaf_node H) (data_blocks self)\<rparr>;
          current_level = build_levels H (leaves self1)
      in case current_level of
           [] \<Rightarrow> Inl IndexError
         | r # _ \<Rightarrow> Inr (self1\<lparr>root := Some r\<rparr>))"

text \<open>\<^verbatim>\<open>MerkleTree.__init__\<close>\<close>

definition MerkleTree_init :: "hash_fn \<Rightarrow> string list \<Rightarrow> error + MerkleTree" where
  "MerkleTree_init H blocks =
     (if blocks = [] then Inl ValueError
      else build_tree H \<lparr>data_blocks = blocks, leaves = [], root = None\<rparr>)"

text \<open>\<^verbatim>\<open>MerkleTree.get_root_hash\<close>\<close>

definition get_root_hash :: "MerkleTree \<Rightarrow> string option" where
  "get_root_hash self = (case root self of Some r \<Rightarrow> Some (hash r) | None \<Rightarrow> None)"

subsection \<open>Proof generation\<close>

text \<open>
  The inner \<^verbatim>\<open>for\<close> loop of \<^verbatim>\<open>get_proof\<close>. Its state is the proof built so far
  (the source's variable \<^verbatim>\<open>proof\<close>, here \<open>path\<close>), the tracked
  \<^verbatim>\<open>current_index\<close> (which the loop body overwrites while the loop is still
  running) and \<^verbatim>\<open>next_level\<close>.
\<close>

function proof_loop ::
  "hash_fn \<Rightarrow> MerkleNode list \<Rightarrow> nat \<Rightarrow> proof_path \<Rightarrow> nat \<Rightarrow> MerkleNode list
     \<Rightarrow> proof_path \<times> nat \<times> MerkleNode list" where
  "proof_loop H current_level i path current_index next_level =
     (if i < length current_level then
        let l = current_level ! i;
            r = (if i + 1 < length current_level then current_level ! (i + 1)
                 else current_level ! i);
            (path', current_index') =
              (if current_index = i then (path @ [(hash r, False)], i div 2)
               else if current_index = i + 1 then (path @ [(hash l, True)], i div 2)
               else (path, current_index));
            parent = parent_node H l r
        in proof_loop H current_level (i + 2) path' current_index' (next_level @ [parent])
      else (path, current_index, next_level))"
  by pat_completeness auto
termination
  by (relation "measure (\<lambda>(H, current_level, i, path, current_index, next_level).
        length current_level - i)") auto

declare proof_loop.simps [simp del]

lemma proof_loop_next_level:
  "snd (snd (proof_loop H cl i p ci nl)) = pair_loop H cl i nl"
proof (induction H cl i p ci nl rule: proof_loop.induct)
  case (1 H cl i p ci nl)
  show ?case
  proof (cases "i < length cl")
    case False
    then show ?thesis
      by (subst proof_loop.simps, subst pair_loop.simps) simp
  next
    case True
    define l where "l = cl ! i"
    define r where "r = (if i + 1 < length cl then cl ! (i + 1) else cl ! i)"
    define pc where "pc = (if ci = i then (p @ [(hash r, False)], i div 2)
               else if ci = i + 1 then (p @ [(hash l, True)], i div 2)
               else (p, ci))"
    have step: "proof_loop H cl i p ci nl =
        proof_loop H cl (i + 2) (fst pc) (snd pc) (nl @ [parent_node H l r])"
      using True
      by (subst proof_loop.simps) (simp add: Let_def l_def r_def pc_def split: prod.splits)
    have pair_step: "pair_loop H cl i nl = pair_loop H cl (i + 2) (nl @ [parent_node H l r])"
      using True by (subst pair_loop.simps) (simp add: Let_def l_def r_def)
    have "snd (snd (proof_loop H cl (i + 2) (fst pc) (snd pc) (nl @ [parent_node H l r])))
        = pair_loop H cl (i + 2) (nl @ [parent_node H l r])"
      by (rule "1.IH" [OF True l_def r_def pc_def _ refl]) (simp add: prod_eq_iff)
    then show ?thesis
      by (simp only: step pair_step)
  qed
qed

text \<open>The outer \<^verbatim>\<open>while len(current_level) > 1\<close> loop of \<^verbatim>\<open>get_proof\<close>.\<close>

function proof_levels :: "hash_fn \<Rightarrow> MerkleNode list \<Rightarrow> proof_path \<Rightarrow> nat \<Rightarrow> proof_path" where
  "proof_levels H current_level path current_index =
     (if length current_level > 1 then
        case proof_loop H current_level 0 path current_index [] of
          (path', current_index', next_level) \<Rightarrow> proof_levels H next_level path' current_index'
      else path)"
  by pat_completeness auto
termination
proof (relation "measure (\<lambda>(H, current_level, p, current_index). length current_level)")
  fix H :: hash_fn and current_level :: "MerkleNode list" and p :: proof_path
    and current_index :: nat and p' :: proof_path and y :: "nat \<times> MerkleNode list"
    and current_index' :: nat and next_level :: "MerkleNode list"
  assume len: "1 < length current_level"
    and s: "(p', y) = proof_loop H current_level 0 p current_index []"
      "(current_index', next_level) = y"
  from s have "next_level = snd (snd (proof_loop H current_level 0 p current_index []))"
    by (metis snd_conv)
  then have "length next_level = (length current_level + 1) div 2"
    by (simp add: proof_loop_next_level length_pair_loop)
  with len show "((H, next_level, p', current_index'), (H, current_level, p, current_index))
      \<in> measure (\<lambda>(H, current_level, p, current_index). length current_level)"
    by simp
qed simp

declare proof_levels.simps [simp del]

text \<open>
  \<^verbatim>\<open>MerkleTree.get_proof\<close>. Past the range check the index is a natural number, and
  the loops compare it with the natural numbers of \<^verbatim>\<open>range\<close>.
\<close>

definition get_proof :: "hash_fn \<Rightarrow> MerkleTree \<Rightarrow> int \<Rightarrow> error + proof_path" where
  "get_proof H self data_index =
     (if data_index < 0 \<or> data_index \<ge> int (length (leaves self)) then Inl IndexError
      else Inr (proof_levels H (leaves self) [] (nat data_index)))"

subsection \<open>Proof verification\<close>

text \<open>The \<^verbatim>\<open>for sibling_hash, is_left in proof\<close> loop of \<^verbatim>\<open>verify_proof\<close>.\<close>

fun verify_loop :: "hash_fn \<Rightarrow> string \<Rightarrow> proof_path \<Rightarrow> string" where
  "verify_loop H current_hash [] = current_hash"
| "verify_loop H current_hash ((sibling_hash, is_left) # rest) =
     (let combined = (if is_left then sibling_hash @ current_hash
                      else current_hash @ sibling_hash)
      in verify_loop H (H combined) rest)"

text \<open>
  \<^verbatim>\<open>MerkleTree.verify_proof\<close>, a method: it receives the tree \<^verbatim>\<open>self\<close> and the
  index \<^verbatim>\<open>data_index\<close> as the source does.
\<close>

definition verify_proof ::
  "hash_fn \<Rightarrow> MerkleTree \<Rightarrow> string \<Rightarrow> int \<Rightarrow> proof_path \<Rightarrow> string \<Rightarrow> bool" where
  "verify_proof H self d data_index path root_hash =
     (let current_hash = H d in verify_loop H current_hash path = root_hash)"

subsection \<open>Proof generation on a store of lists\<close>

text \<open>
  \<^verbatim>\<open>get_proof\<close> once more, with the mutable objects it handles made explicit. The Python
  lists of nodes live in a store, addressed by natural numbers; \<^verbatim>\<open>self.leaves\<close> is
  the address of such a list, and \<^verbatim>\<open>current_level = self.leaves\<close> copies the address,
  not the list. \<^verbatim>\<open>next_level = []\<close> allocates a fresh list and
  \<^verbatim>\<open>next_level.append(parent)\<close> updates the list at that address in place. Nodes
  are never assigned to after their creation and are kept as values. The state holds the
  three fields of the tree object and the store.
\<close>

type_synonym addr = nat

record pstate =
  self_data_blocks :: "string list"
  self_leaves :: addr
  self_root :: "MerkleNode option"
  cells :: "addr \<Rightarrow> MerkleNode list"
  next_free :: addr

text \<open>\<^verbatim>\<open>next_level = []\<close>\<close>

definition new_list :: "pstate \<Rightarrow> addr \<times> pstate" where
  "new_list st =
     (next_free st, st\<lparr>cells := (cells st)(next_free st := []), next_free := next_free st + 1\<rparr>)"

text \<open>\<^verbatim>\<open>next_level.append(parent)\<close>\<close>

definition append_st :: "addr \<Rightarrow> MerkleNode \<Rightarrow> pstate \<Rightarrow> pstate" where
  "append_st a x st = st\<lparr>cells := (cells st)(a := cells st a @ [x])\<rparr>"

text \<open>
  The \<^verbatim>\<open>for\<close> loop: \<^verbatim>\<open>range(0, len(current_level), 2)\<close> fixes its bound \<open>n\<close>
  when the loop starts, while \<^verbatim>\<open>current_level[i]\<close> and
  \<^verbatim>\<open>i + 1 < len(current_level)\<close> read the list as it is at that moment; reading
  past its end raises \<^verbatim>\<open>IndexError\<close>.
\<close>

function proof_loop_st ::
  "hash_fn \<Rightarrow> addr \<Rightarrow> nat \<Rightarrow> nat \<Rightarrow> proof_path \<Rightarrow> nat \<Rightarrow> addr \<Rightarrow> pstate
     \<Rightarrow> (error + proof_path \<times> nat) \<times> pstate" where
  "proof_loop_st H current_level i n path current_index next_level st =
     (if i < n then
        if length (cells st current_level) \<le> i then (Inl IndexError, st)
        else
          let l = cells st current_level ! i;
              r = (if i + 1 < length (cells st current_level)
                   then cells st current_level ! (i + 1)
                   else cells st current_level ! i);
              (path', current_index') =
                (if current_index = i then (path @ [(hash r, False)], i div 2)
                 else if current_index = i + 1 then (path @ [(hash l, True)], i div 2)
                 else (path, current_index));
              parent = parent_node H l r
          in proof_loop_st H current_level (i + 2) n path' current_index' next_level
               (append_st next_level parent st)
      else (Inr (path, current_index), st))"
  by pat_completeness auto
termination
  by (relation "measure (\<lambda>(H, current_level, i, n, path, current_index, next_level, st). n - i)")
     auto

declare proof_loop_st.simps [simp del]

lemma proof_loop_st_length:
  "proof_loop_st H cl i n p ci nl st = (Inr res, st') \<Longrightarrow>
   length (cells st' nl) = length (cells st nl) + (n + 1 - i) div 2"
proof (induction H cl i n p ci nl st rule: proof_loop_st.induct)
  case (1 H cl i n p ci nl st)
  show ?case
  proof (cases "i < n")
    case False
    with "1.prems" show ?thesis
      by (subst (asm) proof_loop_st.simps) auto
  next
    case True
    show ?thesis
    proof (cases "length (cells st cl) \<le> i")
      case True
      with \<open>i < n\<close> "1.prems" show ?thesis
        by (subst (asm) proof_loop_st.simps) auto
    next
      case False
      define l where "l = cells st cl ! i"
      define r where "r = (if i + 1 < length (cells st cl) then cells st cl ! (i + 1)
                   else cells st cl ! i)"
      define pc where "pc = (if ci = i then (p @ [(hash r, False)], i div 2)
                 else if ci = i + 1 then (p @ [(hash l, True)], i div 2)
                 else (p, ci))"
      have step: "proof_loop_st H cl i n p ci nl st =
          proof_loop_st H cl (i + 2) n (fst pc) (snd pc) nl (append_st nl (parent_node H l r) st)"
        using True False
        by (subst proof_loop_st.simps) (simp add: Let_def l_def r_def pc_def split: prod.splits)
      have "length (cells st' nl) =
          length (cells (append_st nl (parent_node H l r) st) nl) + (n + 1 - (i + 2)) div 2"
        by (rule "1.IH" [OF True False l_def r_def pc_def _ refl])
           (use step "1.prems" in \<open>auto simp: prod_eq_iff\<close>)
      with True show ?thesis
        by (simp add: append_st_def)
    qed
  qed
qed

text \<open>The \<^verbatim>\<open>while\<close> loop.\<close>

function proof_levels_st ::
  "hash_fn \<Rightarrow> addr \<Rightarrow> proof_path \<Rightarrow> nat \<Rightarrow> pstate \<Rightarrow> (error + proof_path) \<times> pstate" where
  "proof_levels_st H current_level path current_index st =
     (if length (cells st current_level) > 1 then
        case new_list st of (next_level, st1) \<Rightarrow>
          (case proof_loop_st H current_level 0 (length (cells st1 current_level))
                  path current_index next_level st1 of
             (Inl e, st2) \<Rightarrow> (Inl e, st2)
           | (Inr (path', current_index'), st2) \<Rightarrow>
               proof_levels_st H next_level path' current_index' st2)
      else (Inr path, st))"
  by pat_completeness auto
termination
proof (relation "measure (\<lambda>(H, current_level, p, current_index, st).
         length (cells st current_level))")
  fix H :: hash_fn and current_level :: addr and p :: proof_path and current_index :: nat
    and st :: pstate and next_level :: addr and st1 :: pstate
    and res :: "error + proof_path \<times> nat" and st2 :: pstate
    and pc :: "proof_path \<times> nat" and p' :: proof_path and current_index' :: nat
  assume len: "1 < length (cells st current_level)"
    and new: "(next_level, st1) = new_list st"
    and loop: "(res, st2) = proof_loop_st H current_level 0 (length (cells st1 current_level))
                 p current_index next_level st1"
    and res: "res = Inr pc" "(p', current_index') = pc"
  from new have nl: "cells st1 next_level = []"
    by (simp add: new_list_def)
  from new have "length (cells st1 current_level) \<le> length (cells st current_level)"
    by (simp add: new_list_def)
  moreover have "length (cells st2 next_level) = (length (cells st1 current_level) + 1) div 2"
    using proof_loop_st_length [of H current_level 0 _ p current_index next_level st1 pc st2]
      loop res nl by simp
  ultimately have "length (cells st2 next_level) < length (cells st current_level)"
    using len by linarith
  then show "((H, next_level, p', current_index', st2), (H, current_level, p, current_index, st))
      \<in> measure (\<lambda>(H, current_level, p, current_index, st). length (cells st current_level))"
    by simp
qed simp

declare proof_levels_st.simps [simp del]

text \<open>\<^verbatim>\<open>MerkleTree.get_proof\<close> on the store.\<close>

definition get_proof_st :: "hash_fn \<Rightarrow> int \<Rightarrow> pstate \<Rightarrow> (error + proof_path) \<times> pstate" where
  "get_proof_st H data_index st =
     (if data_index < 0 \<or> data_index \<ge> int (length (cells st (self_leaves st)))
      then (Inl IndexError, st)
      else proof_levels_st H (self_leaves st) [] (nat data_index) st)"

text \<open>The tree that a state holds: its fields, with the list of leaves read from the store.\<close>

definition tree_of :: "pstate \<Rightarrow> MerkleTree" where
  "tree_of st =
     \<lparr>data_blocks = self_data_blocks st, leaves = cells st (self_leaves st),
      root = self_root st\<rparr>"

subsection \<open>Predicates of the specification\<close>

text \<open>
  The level that the \<^verbatim>\<open>while\<close> loop of \<^verbatim>\<open>build_tree\<close> holds in
  \<^verbatim>\<open>current_level\<close> after \<open>k\<close> rounds, as long as the loop is still running: the
  leaves for \<open>k = 0\<close>, and one more run of the pairing loop for each round.
\<close>

definition construction_level :: "hash_fn \<Rightarrow> MerkleNode list \<Rightarrow> nat \<Rightarrow> MerkleNode list" where
  "construction_level H ls k = ((\<lambda>l. pair_loop H l 0 []) ^^ k) ls"

text \<open>
  The proof step of the node at index \<open>ci\<close> of a level: the hash of its right neighbour
  (or its own, when it is the last node of an odd level) if \<open>ci\<close> is even, the hash of
  its left neighbour if \<open>ci\<close> is odd.
\<close>

definition sibling_step :: "MerkleNode list \<Rightarrow> nat \<Rightarrow> string \<times> bool" where
  "sibling_step cl ci =
     (if even ci then (hash (if ci + 1 < length cl then cl ! (ci + 1) else cl ! ci), False)
      else (hash (cl ! (ci - 1)), True))"

text \<open>
  The node invariant: a leaf's hash is the hash of its data block, an internal node's hash
  is the hash of its children's hashes concatenated left before right, and the same holds
  for every node below.
\<close>

fun hash_invariant :: "hash_fn \<Rightarrow> MerkleNode \<Rightarrow> bool" where
  "hash_invariant H (Leaf d h) = (h = H d)"
| "hash_invariant H (Internal l r h) =
     (h = H (hash l @ hash r) \<and> hash_invariant H l \<and> hash_invariant H r)"

text \<open>
  The verification algorithm in the specification's words: start from \<open>H data\<close>, fold
  the steps of the proof from leaf to root, compare with the expected root.
\<close>

definition spec_verify :: "hash_fn \<Rightarrow> string \<Rightarrow> proof_path \<Rightarrow> string \<Rightarrow> bool" where
  "spec_verify H d path expected_root =
     (foldl (\<lambda>current (sibling_hash, sibling_is_left).
               if sibling_is_left then H (sibling_hash @ current)
               else H (current @ sibling_hash)) (H d) path = expected_root)"

section \<open>Properties of the loops\<close>

lemma proof_loop_passed:
  "ci < i \<Longrightarrow> proof_loop H cl i p ci nl = (p, ci, pair_loop H cl i nl)"
proof (induction H cl i p ci nl rule: proof_loop.induct)
  case (1 H cl i p ci nl)
  show ?case
  proof (cases "i < length cl")
    case False
    then show ?thesis
      by (subst proof_loop.simps, subst pair_loop.simps) simp
  next
    case True
    define r where "r = (if i + 1 < length cl then cl ! (i + 1) else cl ! i)"
    have "proof_loop H cl (i + 2) p ci (nl @ [parent_node H (cl ! i) r])
        = (p, ci, pair_loop H cl (i + 2) (nl @ [parent_node H (cl ! i) r]))"
      unfolding r_def
      by (rule "1.IH" [OF True refl refl refl _ refl]) (use "1.prems" in auto)
    with "1.prems" True show ?thesis
      by (subst proof_loop.simps, subst pair_loop.simps) (simp add: Let_def r_def)
  qed
qed

lemma proof_loop_found:
  "even i \<Longrightarrow> i \<le> ci \<Longrightarrow> ci < length cl \<Longrightarrow>
   proof_loop H cl i p ci nl = (p @ [sibling_step cl ci], ci div 2, pair_loop H cl i nl)"
proof (induction H cl i p ci nl rule: proof_loop.induct)
  case (1 H cl i p ci nl)
  from "1.prems" have lt: "i < length cl" by simp
  consider (left_member) "ci = i" | (right_member) "ci = i + 1" | (later) "i + 2 \<le> ci"
    using "1.prems" by linarith
  then show ?case
  proof cases
    case left_member
    have "i div 2 < i + 2" by simp
    then show ?thesis
      using lt left_member "1.prems"
      by (subst proof_loop.simps, subst pair_loop.simps)
         (simp add: Let_def proof_loop_passed sibling_step_def)
  next
    case right_member
    have "i div 2 < i + 2" by simp
    then show ?thesis
      using lt right_member "1.prems"
      by (subst proof_loop.simps, subst pair_loop.simps)
         (simp add: Let_def proof_loop_passed sibling_step_def)
  next
    case later
    then have ne: "ci \<noteq> i" "ci \<noteq> i + 1" by simp_all
    define r where "r = (if i + 1 < length cl then cl ! (i + 1) else cl ! i)"
    have "proof_loop H cl (i + 2) p ci (nl @ [parent_node H (cl ! i) r])
        = (p @ [sibling_step cl ci], ci div 2,
           pair_loop H cl (i + 2) (nl @ [parent_node H (cl ! i) r]))"
      unfolding r_def
      by (rule "1.IH" [OF lt refl refl refl _ refl]) (use "1.prems" later in auto)
    with lt ne show ?thesis
      by (subst proof_loop.simps, subst pair_loop.simps) (simp add: Let_def r_def)
  qed
qed

lemma nth_pair_up:
  "k < (length xs + 1) div 2 \<Longrightarrow>
   pair_up H xs ! k =
     parent_node H (xs ! (2 * k)) (if 2 * k + 1 < length xs then xs ! (2 * k + 1) else xs ! (2 * k))"
proof (induction H xs arbitrary: k rule: pair_up.induct)
  case (3 H x y xs)
  then show ?case by (cases k) auto
qed auto

lemma hash_parent_node [simp]: "hash (parent_node H l r) = H (hash l @ hash r)"
  by (simp add: parent_node_def calculate_hash_def)

lemma hash_leaf_node [simp]: "hash (leaf_node H d) = H d"
  by (simp add: leaf_node_def calculate_hash_def)

lemma verify_loop_append:
  "verify_loop H h (p @ q) = verify_loop H (verify_loop H h p) q"
  by (induction H h p rule: verify_loop.induct) (auto simp: Let_def)

text \<open>One proof step lifts the hash of a node to the hash of its parent.\<close>

lemma verify_sibling_step:
  assumes "ci < length cl"
  shows "verify_loop H (hash (cl ! ci)) [sibling_step cl ci] = hash (pair_up H cl ! (ci div 2))"
proof -
  from assms have k: "ci div 2 < (length cl + 1) div 2" by linarith
  show ?thesis
  proof (cases "even ci")
    case True
    then have "2 * (ci div 2) = ci" by simp
    then show ?thesis
      using True by (simp add: nth_pair_up [OF k] sibling_step_def)
  next
    case False
    then have "2 * (ci div 2) + 1 = ci" "2 * (ci div 2) = ci - 1" by presburger+
    then show ?thesis
      using False assms by (simp add: nth_pair_up [OF k] sibling_step_def)
  qed
qed

lemma build_levels_single: "cl \<noteq> [] \<Longrightarrow> \<exists>r. build_levels H cl = [r]"
proof (induction H cl rule: build_levels.induct)
  case (1 H cl)
  show ?case
  proof (cases "1 < length cl")
    case True
    then have "0 < length (pair_loop H cl 0 [])"
      unfolding length_pair_loop by linarith
    then have "pair_loop H cl 0 [] \<noteq> []" by auto
    with "1.IH" [OF True] True show ?thesis
      by (subst build_levels.simps) simp
  next
    case False
    with "1.prems" have "length cl = 1" by (cases cl) auto
    then obtain r where "cl = [r]" by (cases cl) auto
    then show ?thesis by (subst build_levels.simps) simp
  qed
qed

lemma proof_levels_verify:
  "ci < length cl \<Longrightarrow> verify_loop H h0 p = hash (cl ! ci) \<Longrightarrow>
   verify_loop H h0 (proof_levels H cl p ci) = hash (hd (build_levels H cl))"
proof (induction H cl p ci rule: proof_levels.induct)
  case (1 H cl p ci)
  show ?case
  proof (cases "1 < length cl")
    case False
    with "1.prems" have "ci = 0" by simp
    with False "1.prems" show ?thesis
      by (subst proof_levels.simps, subst build_levels.simps) (simp add: hd_conv_nth)
  next
    case True
    have loop: "proof_loop H cl 0 p ci [] = (p @ [sibling_step cl ci], ci div 2, pair_up H cl)"
      using "1.prems" by (simp add: proof_loop_found pair_loop_pair_up)
    have k: "ci div 2 < length (pair_up H cl)"
      using "1.prems" unfolding length_pair_up by linarith
    have vh: "verify_loop H h0 (p @ [sibling_step cl ci]) = hash (pair_up H cl ! (ci div 2))"
      using "1.prems" by (simp add: verify_loop_append verify_sibling_step)
    have "verify_loop H h0 (proof_levels H (pair_up H cl) (p @ [sibling_step cl ci]) (ci div 2))
        = hash (hd (build_levels H (pair_up H cl)))"
      by (rule "1.IH" [OF True loop [symmetric] refl k vh])
    with True loop show ?thesis
      by (subst proof_levels.simps, subst build_levels.simps) (simp add: pair_loop_pair_up)
  qed
qed

lemma length_proof_levels:
  "ci < length cl \<Longrightarrow> length (proof_levels H cl p ci) = length p + ceillog2 (length cl)"
proof (induction H cl p ci rule: proof_levels.induct)
  case (1 H cl p ci)
  show ?case
  proof (cases "1 < length cl")
    case False
    then show ?thesis
      by (subst proof_levels.simps) simp
  next
    case True
    have loop: "proof_loop H cl 0 p ci [] = (p @ [sibling_step cl ci], ci div 2, pair_up H cl)"
      using "1.prems" by (simp add: proof_loop_found pair_loop_pair_up)
    have k: "ci div 2 < length (pair_up H cl)"
      using "1.prems" unfolding length_pair_up by linarith
    have "length (proof_levels H (pair_up H cl) (p @ [sibling_step cl ci]) (ci div 2))
        = length (p @ [sibling_step cl ci]) + ceillog2 (length (pair_up H cl))"
      by (rule "1.IH" [OF True loop [symmetric] refl k])
    moreover have "ceillog2 (length cl) = 1 + ceillog2 ((length cl + 1) div 2)"
      using True by (subst ceillog2_rec) simp
    ultimately show ?thesis
      using True loop by (subst proof_levels.simps) (simp add: length_pair_up)
  qed
qed

lemma MerkleTree_init_nonempty:
  assumes "blocks \<noteq> []"
  shows "\<exists>r. build_levels H (map (leaf_node H) blocks) = [r] \<and>
     MerkleTree_init H blocks =
       Inr \<lparr>data_blocks = blocks, leaves = map (leaf_node H) blocks, root = Some r\<rparr>"
proof -
  from assms have "map (leaf_node H) blocks \<noteq> []" by simp
  then obtain r where "build_levels H (map (leaf_node H) blocks) = [r]"
    using build_levels_single by blast
  with assms show ?thesis
    by (simp add: MerkleTree_init_def build_tree_def)
qed

lemma hash_invariant_pair_up:
  "\<forall>n \<in> set xs. hash_invariant H n \<Longrightarrow> \<forall>n \<in> set (pair_up H xs). hash_invariant H n"
  by (induction H xs rule: pair_up.induct) (auto simp: parent_node_def calculate_hash_def)

lemma hash_invariant_build_levels:
  "\<forall>n \<in> set cl. hash_invariant H n \<Longrightarrow> \<forall>n \<in> set (build_levels H cl). hash_invariant H n"
proof (induction H cl rule: build_levels.induct)
  case (1 H cl)
  show ?case
  proof (cases "1 < length cl")
    case True
    from "1.prems" have "\<forall>n \<in> set (pair_loop H cl 0 []). hash_invariant H n"
      unfolding pair_loop_pair_up by (rule hash_invariant_pair_up)
    with "1.IH" [OF True] True show ?thesis
      by (subst build_levels.simps) simp
  next
    case False
    with "1.prems" show ?thesis by (subst build_levels.simps) simp
  qed
qed

lemma last_pair_up_odd:
  "odd (length xs) \<Longrightarrow> last (pair_up H xs) = parent_node H (last xs) (last xs)"
proof (induction H xs rule: pair_up.induct)
  case (3 H x y xs)
  then have "xs \<noteq> []" by auto
  then have "pair_up H xs \<noteq> []" using length_pair_up [of H xs] by (cases xs) auto
  with 3 \<open>xs \<noteq> []\<close> show ?case by simp
qed auto

lemma ceiling_log2_nat:
  assumes "0 < n"
  shows "\<lceil>log 2 (real n)\<rceil> = int (ceillog2 n)"
proof -
  from assms have "0 \<le> log 2 (real n)" by simp
  then have "0 \<le> \<lceil>log 2 (real n)\<rceil>" by linarith
  with assms show ?thesis by (simp add: ceillog2_def)
qed

lemma proof_loop_st_refines:
  "cl \<noteq> nl \<Longrightarrow> n = length (cells st cl) \<Longrightarrow>
   proof_loop_st H cl i n p ci nl st =
     (case proof_loop H (cells st cl) i p ci (cells st nl) of
        (p', ci', nlist) \<Rightarrow> (Inr (p', ci'), st\<lparr>cells := (cells st)(nl := nlist)\<rparr>))"
proof (induction H cl i n p ci nl st rule: proof_loop_st.induct)
  case (1 H cl i n p ci nl st)
  show ?case
  proof (cases "i < n")
    case False
    with "1.prems" show ?thesis
      by (subst proof_loop_st.simps, subst proof_loop.simps) simp
  next
    case True
    with "1.prems" have inb: "\<not> length (cells st cl) \<le> i" by simp
    define l where "l = cells st cl ! i"
    define r where "r = (if i + 1 < length (cells st cl) then cells st cl ! (i + 1)
                 else cells st cl ! i)"
    define pc where "pc = (if ci = i then (p @ [(hash r, False)], i div 2)
               else if ci = i + 1 then (p @ [(hash l, True)], i div 2)
               else (p, ci))"
    define st1 where "st1 = append_st nl (parent_node H l r) st"
    have cl1: "cells st1 cl = cells st cl" and nl1: "cells st1 nl = cells st nl @ [parent_node H l r]"
      and upd: "\<And>xs. st1\<lparr>cells := (cells st1)(nl := xs)\<rparr> = st\<lparr>cells := (cells st)(nl := xs)\<rparr>"
      using "1.prems" by (simp_all add: st1_def append_st_def)
    have step_st: "proof_loop_st H cl i n p ci nl st =
        proof_loop_st H cl (i + 2) n (fst pc) (snd pc) nl st1"
      using True inb
      by (subst proof_loop_st.simps)
         (simp add: Let_def l_def r_def pc_def st1_def split: prod.splits)
    have step: "proof_loop H (cells st cl) i p ci (cells st nl) =
        proof_loop H (cells st cl) (i + 2) (fst pc) (snd pc) (cells st nl @ [parent_node H l r])"
      using True "1.prems"
      by (subst proof_loop.simps)
         (simp add: Let_def l_def r_def pc_def split: prod.splits)
    have "proof_loop_st H cl (i + 2) n (fst pc) (snd pc) nl st1 =
        (case proof_loop H (cells st1 cl) (i + 2) (fst pc) (snd pc) (cells st1 nl) of
           (p', ci', nlist) \<Rightarrow> (Inr (p', ci'), st1\<lparr>cells := (cells st1)(nl := nlist)\<rparr>))"
      unfolding st1_def
      by (rule "1.IH" [OF True inb l_def r_def pc_def _ refl])
         (use "1.prems" in \<open>auto simp: prod_eq_iff append_st_def\<close>)
    then have "proof_loop_st H cl (i + 2) n (fst pc) (snd pc) nl st1 =
        (case proof_loop H (cells st cl) (i + 2) (fst pc) (snd pc)
                (cells st nl @ [parent_node H l r]) of
           (p', ci', nlist) \<Rightarrow> (Inr (p', ci'), st\<lparr>cells := (cells st)(nl := nlist)\<rparr>))"
      by (simp only: cl1 nl1 upd)
    then show ?thesis
      by (simp only: step_st step)
  qed
qed

lemma proof_levels_st_refines:
  "cl < next_free st \<Longrightarrow>
   \<exists>st'. proof_levels_st H cl p ci st = (Inr (proof_levels H (cells st cl) p ci), st') \<and>
     self_data_blocks st' = self_data_blocks st \<and> self_leaves st' = self_leaves st \<and>
     self_root st' = self_root st \<and> next_free st \<le> next_free st' \<and>
     (\<forall>a < next_free st. cells st' a = cells st a)"
proof (induction H cl p ci st rule: proof_levels_st.induct)
  case (1 H cl p ci st)
  show ?case
  proof (cases "1 < length (cells st cl)")
    case False
    then show ?thesis
      by (subst proof_levels_st.simps, subst proof_levels.simps) simp
  next
    case True
    define nf where "nf = next_free st"
    define st1 where "st1 = st\<lparr>cells := (cells st)(nf := []), next_free := nf + 1\<rparr>"
    have new: "new_list st = (nf, st1)"
      by (simp add: new_list_def nf_def st1_def)
    from "1.prems" have ne: "cl \<noteq> nf" by (simp add: nf_def)
    then have cl1: "cells st1 cl = cells st cl" by (simp add: st1_def)
    obtain p' ci' nlist where pure: "proof_loop H (cells st cl) 0 p ci [] = (p', ci', nlist)"
      by (metis prod_cases3)
    define st2 where "st2 = st1\<lparr>cells := (cells st1)(nf := nlist)\<rparr>"
    have loop: "proof_loop_st H cl 0 (length (cells st1 cl)) p ci nf st1 = (Inr (p', ci'), st2)"
      using proof_loop_st_refines [OF ne refl, where st = st1 and H = H and i = 0 and p = p
          and ci = ci] pure
      by (simp add: cl1 st2_def) (simp add: st1_def)
    have nf2: "nf < next_free st2" by (simp add: st2_def st1_def)
    obtain st' where r: "proof_levels_st H nf p' ci' st2 =
          (Inr (proof_levels H (cells st2 nf) p' ci'), st')"
      and f: "self_data_blocks st' = self_data_blocks st2" "self_leaves st' = self_leaves st2"
        "self_root st' = self_root st2" "next_free st2 \<le> next_free st'"
        "\<forall>a < next_free st2. cells st' a = cells st2 a"
      using "1.IH" [OF True new [symmetric] loop [symmetric] refl refl nf2] by blast
    have "proof_levels_st H cl p ci st = (Inr (proof_levels H nlist p' ci'), st')"
      using True new loop r
      by (subst proof_levels_st.simps) (simp add: st2_def)
    moreover have "proof_levels H (cells st cl) p ci = proof_levels H nlist p' ci'"
      using True pure by (subst proof_levels.simps) simp
    moreover have "\<forall>a < next_free st. cells st' a = cells st a"
      using f(5) by (simp add: st2_def st1_def nf_def)
    moreover have "next_free st \<le> next_free st'"
      using f(4) by (simp add: st2_def st1_def nf_def)
    ultimately show ?thesis
      using f(1-3) by (simp add: st2_def st1_def)
  qed
qed

lemma get_proof_two_leaves:
  "get_proof id \<lparr>data_blocks = [''a'', ''b''], leaves = [Leaf ''a'' ''a'', Leaf ''b'' ''b''],
       root = Some (Internal (Leaf ''a'' ''a'') (Leaf ''b'' ''b'') ''ab'')\<rparr> 1
     = Inr [(''a'', True)]"
  by (simp add: get_proof_def proof_levels.simps proof_loop.simps)

lemma right_last_pair_up: "xs \<noteq> [] \<Longrightarrow> right (last (pair_up H xs)) = last xs"
proof (induction H xs rule: pair_up.induct)
  case (3 H x y xs)
  show ?case
  proof (cases "xs = []")
    case True
    then show ?thesis by (simp add: parent_node_def)
  next
    case False
    then have "pair_up H xs \<noteq> []" using length_pair_up [of H xs] by (cases xs) auto
    with 3 False show ?thesis by simp
  qed
qed (simp_all add: parent_node_def)

lemma pair_up_nonempty: "xs \<noteq> [] \<Longrightarrow> pair_up H xs \<noteq> []"
  using length_pair_up [of H xs] by (cases xs) auto

lemma build_levels_step:
  "1 < length cl \<Longrightarrow> build_levels H cl = build_levels H (pair_loop H cl 0 [])"
  by (subst build_levels.simps) simp

lemma right_spine_last:
  "cl \<noteq> [] \<Longrightarrow> build_levels H cl = [r] \<Longrightarrow> (right ^^ ceillog2 (length cl)) r = last cl"
proof (induction H cl rule: build_levels.induct)
  case (1 H cl)
  show ?case
  proof (cases "1 < length cl")
    case False
    with "1.prems" have "length cl = 1" by (cases cl) auto
    moreover from this "1.prems" have "cl = [r]"
      by (subst (asm) build_levels.simps) simp
    ultimately show ?thesis by simp
  next
    case True
    have ne: "pair_loop H cl 0 [] \<noteq> []"
      using "1.prems" by (simp add: pair_loop_pair_up pair_up_nonempty)
    have b: "build_levels H (pair_loop H cl 0 []) = [r]"
      using "1.prems" build_levels_step [OF True] by simp
    have "(right ^^ ceillog2 (length (pair_loop H cl 0 []))) r = last (pair_loop H cl 0 [])"
      by (rule "1.IH" [OF True ne b])
    moreover have "ceillog2 (length cl) = Suc (ceillog2 (length (pair_loop H cl 0 [])))"
      using True by (subst ceillog2_rec) (simp add: length_pair_loop)
    ultimately show ?thesis
      using "1.prems" by (simp add: pair_loop_pair_up right_last_pair_up)
  qed
qed

lemma level_iterate_length:
  "1 < length (((\<lambda>l. pair_loop H l 0 []) ^^ k) cl) \<Longrightarrow>
   build_levels H (((\<lambda>l. pair_loop H l 0 []) ^^ k) cl) = build_levels H cl"
proof (induction k)
  case 0
  then show ?case by simp
next
  case (Suc k)
  let ?lv = "((\<lambda>l. pair_loop H l 0 []) ^^ k) cl"
  from Suc.prems have "1 < (length ?lv + 1) div 2"
    by (simp add: length_pair_loop)
  then have gt: "1 < length ?lv" by linarith
  have "build_levels H (pair_loop H ?lv 0 []) = build_levels H ?lv"
    using build_levels_step [OF gt] by simp
  with Suc.IH [OF gt] show ?case by simp
qed

lemma odd_level_in_tree:
  assumes "build_levels H cl = [r]" and "lv = ((\<lambda>l. pair_loop H l 0 []) ^^ k) cl"
    and "1 < length lv" and "odd (length lv)"
  shows "(right ^^ (ceillog2 (length lv) - 1)) r =
           Internal (last lv) (last lv) (H (hash (last lv) @ hash (last lv)))"
proof -
  have b: "build_levels H lv = [r]"
    using level_iterate_length [where H = H and k = k and cl = cl] assms by simp
  then have b': "build_levels H (pair_loop H lv 0 []) = [r]"
    using build_levels_step [OF assms(3)] by simp
  from assms(3) have "lv \<noteq> []" by auto
  then have ne: "pair_loop H lv 0 [] \<noteq> []"
    by (simp add: pair_loop_pair_up pair_up_nonempty)
  have "(right ^^ ceillog2 (length (pair_loop H lv 0 []))) r = last (pair_loop H lv 0 [])"
    by (rule right_spine_last [OF ne b'])
  moreover have "ceillog2 (length lv) = Suc (ceillog2 (length (pair_loop H lv 0 [])))"
    using assms(3) by (subst ceillog2_rec) (simp add: length_pair_loop)
  ultimately show ?thesis
    using assms(4)
    by (simp add: pair_loop_pair_up last_pair_up_odd parent_node_def calculate_hash_def)
qed


lemma ceillog2_3: "ceillog2 3 = 2"
  by (rule ceillog2_eqI) simp_all

section \<open>The claims\<close>

text \<open>
  C1 (proof round-trip). For every non-empty sequence of data blocks \<open>D\<close> and every index
  \<open>i\<close> with \<open>0 \<le> i < len(D)\<close>: the tree is built, \<open>get_proof\<close> returns a proof,
  \<open>get_root_hash\<close> returns a root hash, and \<open>verify_proof\<close> of \<open>D[i]\<close>, \<open>i\<close>, that
  proof and that root hash is true.
\<close>

theorem proof_round_trip:
  assumes "D \<noteq> []" and "0 \<le> i" and "i < int (length D)"
  shows "\<exists>t p r. MerkleTree_init H D = Inr t \<and> get_proof H t i = Inr p \<and>
           get_root_hash t = Some r \<and> verify_proof H t (D ! nat i) i p r"
proof -
  let ?ls = "map (leaf_node H) D"
  obtain r where r: "build_levels H ?ls = [r]"
    and t: "MerkleTree_init H D = Inr \<lparr>data_blocks = D, leaves = ?ls, root = Some r\<rparr>"
    using MerkleTree_init_nonempty [OF assms(1)] by blast
  let ?t = "\<lparr>data_blocks = D, leaves = ?ls, root = Some r\<rparr>"
  from assms have n: "nat i < length ?ls" by simp
  have p: "get_proof H ?t i = Inr (proof_levels H ?ls [] (nat i))"
    using assms by (simp add: get_proof_def)
  have "verify_loop H (H (D ! nat i)) [] = hash (?ls ! nat i)"
    using n by simp
  then have "verify_loop H (H (D ! nat i)) (proof_levels H ?ls [] (nat i)) = hash (hd (build_levels H ?ls))"
    by (rule proof_levels_verify [OF n])
  then have "verify_proof H ?t (D ! nat i) i (proof_levels H ?ls [] (nat i)) (hash r)"
    by (simp add: verify_proof_def r)
  moreover have "get_root_hash ?t = Some (hash r)"
    by (simp add: get_root_hash_def)
  ultimately show ?thesis using t p by blast
qed

theorem proof_round_trip_witness:
  "[''a'', ''b'', ''c''] \<noteq> [] \<and> (0::int) \<le> 2 \<and> (2::int) < int (length [''a'', ''b'', ''c'']) \<and>
   (\<exists>t p r. MerkleTree_init (\<lambda>s. CHR ''#'' # s) [''a'', ''b'', ''c''] = Inr t \<and>
      get_proof (\<lambda>s. CHR ''#'' # s) t 2 = Inr p \<and> get_root_hash t = Some r \<and>
      verify_proof (\<lambda>s. CHR ''#'' # s) t ([''a'', ''b'', ''c''] ! nat 2) 2 p r)"
  using proof_round_trip [of "[''a'', ''b'', ''c'']" 2 "\<lambda>s. CHR ''#'' # s"] by simp

text \<open>
  C2 (node hash invariant). In the tree built from any non-empty \<open>D\<close>, the root and every
  node below it satisfy the invariant: a leaf has \<open>hash = H data\<close>, an internal node has
  \<open>hash = H (left.hash @ right.hash)\<close> in that order. The leaves are, in order, the leaf
  nodes of the data blocks, each with the hash of its own block.
\<close>

theorem node_hash_invariant:
  assumes "D \<noteq> []"
  shows "\<exists>t r. MerkleTree_init H D = Inr t \<and> root t = Some r \<and> hash_invariant H r \<and>
           leaves t = map (\<lambda>d. Leaf d (H d)) D \<and>
           (\<forall>n \<in> set (leaves t). hash_invariant H n)"
proof -
  let ?ls = "map (leaf_node H) D"
  obtain r where r: "build_levels H ?ls = [r]"
    and t: "MerkleTree_init H D = Inr \<lparr>data_blocks = D, leaves = ?ls, root = Some r\<rparr>"
    using MerkleTree_init_nonempty [OF assms(1)] by blast
  have ls: "\<forall>n \<in> set ?ls. hash_invariant H n"
    by (simp add: leaf_node_def calculate_hash_def)
  then have "\<forall>n \<in> set (build_levels H ?ls). hash_invariant H n"
    by (rule hash_invariant_build_levels)
  with r have "hash_invariant H r" by simp
  moreover have "?ls = map (\<lambda>d. Leaf d (H d)) D"
    by (simp add: leaf_node_def calculate_hash_def)
  ultimately show ?thesis using t ls by simp
qed

theorem node_hash_invariant_witness:
  "[''x'', ''y''] \<noteq> [] \<and>
   (\<exists>t r. MerkleTree_init (\<lambda>s. CHR ''#'' # s) [''x'', ''y''] = Inr t \<and> root t = Some r \<and>
      hash_invariant (\<lambda>s. CHR ''#'' # s) r \<and>
      leaves t = map (\<lambda>d. Leaf d (CHR ''#'' # d)) [''x'', ''y''] \<and>
      (\<forall>n \<in> set (leaves t). hash_invariant (\<lambda>s. CHR ''#'' # s) n))"
  using node_hash_invariant [of "[''x'', ''y'']" "\<lambda>s. CHR ''#'' # s"] by simp

text \<open>
  C3 (verification algorithm). \<open>verify_proof\<close> is the algorithm of the specification:
  it returns true exactly when folding the proof steps over \<open>H data\<close>, with the sibling
  on the left when the flag is set and on the right otherwise, ends in the expected root.
\<close>

theorem verify_proof_algorithm:
  "verify_proof H self d data_index path expected_root = spec_verify H d path expected_root"
proof -
  have "verify_loop H h path =
      foldl (\<lambda>current (sibling_hash, sibling_is_left).
               if sibling_is_left then H (sibling_hash @ current)
               else H (current @ sibling_hash)) h path" for h
    by (induction H h path rule: verify_loop.induct) (simp_all add: Let_def)
  then show ?thesis
    by (simp add: verify_proof_def spec_verify_def)
qed

text \<open>
  C4 (odd-node self-pairing). A pairing round on a level of odd length (more than one
  node) ends the next level with the internal node whose left and right child are both the
  last node of the level, with hash \<open>H (hash @ hash)\<close> of that node's hash. In the tree
  built from any non-empty \<open>D\<close> this node is in the tree: for every level \<open>lv\<close> that the
  construction reaches with an odd number of nodes, more than one, following the right
  child from the root \<open>\<lceil>log2 (len lv)\<rceil> - 1\<close> times arrives at that self-paired node. For
  three data blocks \<open>a, b, c\<close> the root is \<open>N(N(a, b), N(c, c))\<close> and the proof of index 2
  is \<open>[(H c, False), (H (H a @ H b), True)]\<close>: its first sibling hash is the third leaf's
  own hash.
\<close>

theorem odd_node_self_pairing:
  "(1 < length current_level \<and> odd (length current_level) \<longrightarrow>
      build_levels H current_level = build_levels H (pair_loop H current_level 0 []) \<and>
      last (pair_loop H current_level 0 []) =
        Internal (last current_level) (last current_level)
          (H (hash (last current_level) @ hash (last current_level)))) \<and>
   (D \<noteq> [] \<longrightarrow>
      (\<exists>t r. MerkleTree_init H D = Inr t \<and> root t = Some r \<and>
         (\<forall>k. 1 < length (construction_level H (leaves t) k) \<and>
              odd (length (construction_level H (leaves t) k)) \<longrightarrow>
              (right ^^ (ceillog2 (length (construction_level H (leaves t) k)) - 1)) r =
                Internal (last (construction_level H (leaves t) k))
                  (last (construction_level H (leaves t) k))
                  (H (hash (last (construction_level H (leaves t) k)) @
                      hash (last (construction_level H (leaves t) k))))))) \<and>
   (\<exists>t. MerkleTree_init H [a, b, c] = Inr t \<and>
      root t = Some (Internal (Internal (Leaf a (H a)) (Leaf b (H b)) (H (H a @ H b)))
                              (Internal (Leaf c (H c)) (Leaf c (H c)) (H (H c @ H c)))
                              (H (H (H a @ H b) @ H (H c @ H c)))) \<and>
      hash (leaves t ! 2) = H c \<and>
      get_proof H t 2 = Inr [(H c, False), (H (H a @ H b), True)])"
proof (intro conjI impI)
  assume a: "1 < length current_level \<and> odd (length current_level)"
  then show "build_levels H current_level = build_levels H (pair_loop H current_level 0 [])"
    by (simp add: build_levels_step)
  from a show "last (pair_loop H current_level 0 []) =
        Internal (last current_level) (last current_level)
          (H (hash (last current_level) @ hash (last current_level)))"
    by (simp add: pair_loop_pair_up last_pair_up_odd parent_node_def calculate_hash_def)
next
  assume "D \<noteq> []"
  then obtain r where r: "build_levels H (map (leaf_node H) D) = [r]"
    and t: "MerkleTree_init H D =
      Inr \<lparr>data_blocks = D, leaves = map (leaf_node H) D, root = Some r\<rparr>"
    using MerkleTree_init_nonempty by blast
  let ?t = "\<lparr>data_blocks = D, leaves = map (leaf_node H) D, root = Some r\<rparr>"
  have "\<forall>k. 1 < length (construction_level H (leaves ?t) k) \<and>
              odd (length (construction_level H (leaves ?t) k)) \<longrightarrow>
              (right ^^ (ceillog2 (length (construction_level H (leaves ?t) k)) - 1)) r =
                Internal (last (construction_level H (leaves ?t) k))
                  (last (construction_level H (leaves ?t) k))
                  (H (hash (last (construction_level H (leaves ?t) k)) @
                      hash (last (construction_level H (leaves ?t) k))))"
    using odd_level_in_tree [OF r refl] by (simp add: construction_level_def)
  with t show "\<exists>t r. MerkleTree_init H D = Inr t \<and> root t = Some r \<and>
         (\<forall>k. 1 < length (construction_level H (leaves t) k) \<and>
              odd (length (construction_level H (leaves t) k)) \<longrightarrow>
              (right ^^ (ceillog2 (length (construction_level H (leaves t) k)) - 1)) r =
                Internal (last (construction_level H (leaves t) k))
                  (last (construction_level H (leaves t) k))
                  (H (hash (last (construction_level H (leaves t) k)) @
                      hash (last (construction_level H (leaves t) k)))))"
    by (intro exI [of _ ?t] exI [of _ r]) simp
next
  let ?D = "[a, b, c]"
  let ?ls = "[leaf_node H a, leaf_node H b, leaf_node H c]"
  let ?nl = "[parent_node H (leaf_node H a) (leaf_node H b),
              parent_node H (leaf_node H c) (leaf_node H c)]"
  let ?top = "[parent_node H (?nl ! 0) (?nl ! 1)]"
  let ?p1 = "[(H c, False)]"
  let ?p2 = "[(H c, False), (H (H a @ H b), True)]"
  have "build_levels H ?ls = build_levels H ?nl"
    by (subst build_levels.simps) (simp add: pair_loop_pair_up)
  also have "\<dots> = build_levels H ?top"
    by (subst build_levels.simps) (simp add: pair_loop_pair_up)
  also have "\<dots> = ?top"
    by (subst build_levels.simps) simp
  finally have t: "MerkleTree_init H ?D =
      Inr \<lparr>data_blocks = ?D, leaves = ?ls, root = Some (hd ?top)\<rparr>"
    by (simp add: MerkleTree_init_def build_tree_def)
  have loop1: "proof_loop H ?ls 0 [] 2 [] = (?p1, Suc 0, ?nl)"
    using proof_loop_found [of 0 2 ?ls H "[]" "[]"]
    by (simp add: pair_loop_pair_up sibling_step_def)
  have loop2: "proof_loop H ?nl 0 ?p1 (Suc 0) [] = (?p2, 0, ?top)"
    using proof_loop_found [of 0 "Suc 0" ?nl H ?p1 "[]"]
    by (simp add: pair_loop_pair_up sibling_step_def)
  have "proof_levels H ?ls [] 2 = proof_levels H ?nl ?p1 (Suc 0)"
    by (subst proof_levels.simps) (simp add: loop1)
  also have "\<dots> = proof_levels H ?top ?p2 0"
    by (subst proof_levels.simps) (simp add: loop2)
  also have "\<dots> = ?p2"
    by (subst proof_levels.simps) simp
  finally show "\<exists>t. MerkleTree_init H [a, b, c] = Inr t \<and>
      root t = Some (Internal (Internal (Leaf a (H a)) (Leaf b (H b)) (H (H a @ H b)))
                              (Internal (Leaf c (H c)) (Leaf c (H c)) (H (H c @ H c)))
                              (H (H (H a @ H b) @ H (H c @ H c)))) \<and>
      hash (leaves t ! 2) = H c \<and>
      get_proof H t 2 = Inr [(H c, False), (H (H a @ H b), True)]"
    using t by (simp add: get_proof_def parent_node_def leaf_node_def calculate_hash_def)
qed

theorem odd_node_self_pairing_witness:
  "1 < length [Leaf ''x'' ''1'', Leaf ''y'' ''2'', Leaf ''z'' ''3''] \<and>
   odd (length [Leaf ''x'' ''1'', Leaf ''y'' ''2'', Leaf ''z'' ''3'']) \<and>
   last (pair_loop id [Leaf ''x'' ''1'', Leaf ''y'' ''2'', Leaf ''z'' ''3''] 0 []) =
     Internal (Leaf ''z'' ''3'') (Leaf ''z'' ''3'') ''33'' \<and>
   [''x'', ''y'', ''z''] \<noteq> [] \<and>
   (\<exists>t r. MerkleTree_init id [''x'', ''y'', ''z''] = Inr t \<and> root t = Some r \<and>
      1 < length (construction_level id (leaves t) 0) \<and>
      odd (length (construction_level id (leaves t) 0)) \<and>
      right r = Internal (Leaf ''z'' ''z'') (Leaf ''z'' ''z'') ''zz'')"
proof -
  note inst = odd_node_self_pairing
    [of "[Leaf ''x'' ''1'', Leaf ''y'' ''2'', Leaf ''z'' ''3'']" id "[''x'', ''y'', ''z'']"
        "''x''" "''y''" "''z''"]
  from inst have 1: "last (pair_loop id [Leaf ''x'' ''1'', Leaf ''y'' ''2'', Leaf ''z'' ''3''] 0 []) =
     Internal (Leaf ''z'' ''3'') (Leaf ''z'' ''3'') ''33''"
    by simp
  from inst obtain t r where t: "MerkleTree_init id [''x'', ''y'', ''z''] = Inr t"
    and r: "root t = Some r"
    and k: "\<And>k. 1 < length (construction_level id (leaves t) k) \<and>
              odd (length (construction_level id (leaves t) k)) \<Longrightarrow>
              (right ^^ (ceillog2 (length (construction_level id (leaves t) k)) - 1)) r =
                Internal (last (construction_level id (leaves t) k))
                  (last (construction_level id (leaves t) k))
                  (id (hash (last (construction_level id (leaves t) k)) @
                      hash (last (construction_level id (leaves t) k))))"
    by auto
  obtain r' where "MerkleTree_init id [''x'', ''y'', ''z''] =
      Inr \<lparr>data_blocks = [''x'', ''y'', ''z''],
           leaves = map (leaf_node id) [''x'', ''y'', ''z''], root = Some r'\<rparr>"
    using MerkleTree_init_nonempty [of "[''x'', ''y'', ''z'']" id] by blast
  with t have ls: "leaves t = [Leaf ''x'' ''x'', Leaf ''y'' ''y'', Leaf ''z'' ''z'']"
    by (auto simp: leaf_node_def calculate_hash_def)
  have "right r = Internal (Leaf ''z'' ''z'') (Leaf ''z'' ''z'') ''zz''"
    using k [of 0] ceillog2_3 by (simp add: ls numeral_3_eq_3 construction_level_def)
  with 1 t r ls show ?thesis by (simp add: construction_level_def)
qed

text \<open>
  C5 as stated (the proof has length \<open>max(1, \<lceil>log2 n\<rceil>)\<close>) fails for one data block:
  the tree is built, the proof of index 0 is empty, and its length 0 is not
  \<open>max 1 \<lceil>log 2 1\<rceil> = 1\<close>.
\<close>

theorem proof_length_counterexample:
  "MerkleTree_init id [''a''] =
     Inr \<lparr>data_blocks = [''a''], leaves = [Leaf ''a'' ''a''], root = Some (Leaf ''a'' ''a'')\<rparr> \<and>
   get_proof id
     \<lparr>data_blocks = [''a''], leaves = [Leaf ''a'' ''a''], root = Some (Leaf ''a'' ''a'')\<rparr> 0
     = Inr [] \<and>
   length ([] :: proof_path) \<noteq> max 1 (nat \<lceil>log 2 (real (length [''a'']))\<rceil>)"
proof -
  have "build_levels id [Leaf ''a'' ''a''] = [Leaf ''a'' ''a'']"
    by (subst build_levels.simps) simp
  then have "MerkleTree_init id [''a''] =
     Inr \<lparr>data_blocks = [''a''], leaves = [Leaf ''a'' ''a''], root = Some (Leaf ''a'' ''a'')\<rparr>"
    by (simp add: MerkleTree_init_def build_tree_def leaf_node_def calculate_hash_def)
  moreover have "proof_levels id [Leaf ''a'' ''a''] [] 0 = []"
    by (subst proof_levels.simps) simp
  then have "get_proof id
     \<lparr>data_blocks = [''a''], leaves = [Leaf ''a'' ''a''], root = Some (Leaf ''a'' ''a'')\<rparr> 0
     = Inr []"
    by (simp add: get_proof_def)
  ultimately show ?thesis by simp
qed

text \<open>
  C5, amended (proof length). For every tree built from \<open>n \<ge> 1\<close> data blocks and every
  index in range, the proof has length \<open>\<lceil>log2 n\<rceil>\<close>, the exact logarithm. For
  \<open>n \<ge> 2\<close> this is at least 1 and so equals \<open>max(1, \<lceil>log2 n\<rceil>)\<close>; for \<open>n = 1\<close> the
  proof is empty.
\<close>

theorem proof_length:
  assumes "D \<noteq> []" and "0 \<le> i" and "i < int (length D)"
  shows "\<exists>t p. MerkleTree_init H D = Inr t \<and> get_proof H t i = Inr p \<and>
           int (length p) = \<lceil>log 2 (real (length D))\<rceil> \<and>
           (2 \<le> length D \<longrightarrow>
              1 \<le> length p \<and> length p = max 1 (nat \<lceil>log 2 (real (length D))\<rceil>)) \<and>
           (length D = 1 \<longrightarrow> p = [])"
proof -
  let ?ls = "map (leaf_node H) D"
  obtain r where t: "MerkleTree_init H D = Inr \<lparr>data_blocks = D, leaves = ?ls, root = Some r\<rparr>"
    using MerkleTree_init_nonempty [OF assms(1)] by blast
  let ?t = "\<lparr>data_blocks = D, leaves = ?ls, root = Some r\<rparr>"
  let ?p = "proof_levels H ?ls [] (nat i)"
  from assms have n: "nat i < length ?ls" by simp
  have p: "get_proof H ?t i = Inr ?p"
    using assms by (simp add: get_proof_def)
  have len: "length ?p = ceillog2 (length D)"
    using length_proof_levels [OF n, of H "[]"] by simp
  have pos: "0 < length D" using assms(1) by simp
  have 1: "int (length ?p) = \<lceil>log 2 (real (length D))\<rceil>"
    using len pos by (simp add: ceiling_log2_nat)
  have 2: "1 \<le> length ?p \<and> length ?p = max 1 (nat \<lceil>log 2 (real (length D))\<rceil>)"
    if "2 \<le> length D"
  proof -
    from that have "ceillog2 (length D) = 1 + ceillog2 ((length D + 1) div 2)"
      by (subst ceillog2_rec) simp
    then have ge: "1 \<le> length ?p" using len by simp
    from 1 have "nat \<lceil>log 2 (real (length D))\<rceil> = length ?p" by linarith
    with ge show ?thesis by simp
  qed
  have 3: "?p = []" if "length D = 1"
    using len that by simp
  show ?thesis using t p 1 2 3 by blast
qed

theorem proof_length_witness:
  "[''a'', ''b'', ''c''] \<noteq> [] \<and> (0::int) \<le> 1 \<and> (1::int) < int (length [''a'', ''b'', ''c'']) \<and>
   2 \<le> length [''a'', ''b'', ''c''] \<and>
   (\<exists>t p. MerkleTree_init id [''a'', ''b'', ''c''] = Inr t \<and> get_proof id t 1 = Inr p \<and>
      int (length p) = \<lceil>log 2 (real (length [''a'', ''b'', ''c'']))\<rceil> \<and>
      1 \<le> length p)"
  using proof_length [of "[''a'', ''b'', ''c'']" 1 id] by simp blast

text \<open>
  C6 (empty input). Constructing a tree from the empty sequence fails with
  \<^verbatim>\<open>ValueError\<close> (InvalidInput), whatever the hash function: the result is the error
  alone, with no tree.
\<close>

theorem empty_input_fails: "MerkleTree_init H [] = Inl ValueError"
  by (simp add: MerkleTree_init_def)

text \<open>
  C7 (index out of range). For every tree and every index below 0 or at least the number
  of leaves, \<open>get_proof\<close> fails with \<^verbatim>\<open>IndexError\<close> (IndexOutOfRange), whatever the
  hash function: the result is the error alone, with no proof.
\<close>

theorem index_out_of_range_fails:
  "data_index < 0 \<or> int (length (leaves self)) \<le> data_index \<Longrightarrow>
   get_proof H self data_index = Inl IndexError"
  by (auto simp: get_proof_def)

theorem index_out_of_range_fails_witness:
  "((3::int) < 0 \<or>
    int (length (leaves \<lparr>data_blocks = [''a''], leaves = [Leaf ''a'' ''a''],
                          root = Some (Leaf ''a'' ''a'')\<rparr>)) \<le> 3) \<and>
   get_proof id \<lparr>data_blocks = [''a''], leaves = [Leaf ''a'' ''a''],
                   root = Some (Leaf ''a'' ''a'')\<rparr> 3 = Inl IndexError"
  using index_out_of_range_fails
    [of 3 "\<lparr>data_blocks = [''a''], leaves = [Leaf ''a'' ''a''],
             root = Some (Leaf ''a'' ''a'')\<rparr>" id]
  by simp

text \<open>
  C8 (single block). The tree built from exactly one data block \<open>d\<close> has the leaf of
  \<open>d\<close> itself as its root, so the root hash is \<open>H d\<close>; the construction loop returns
  the one-leaf level as it is, without a pairing round.
\<close>

theorem single_block_root:
  "MerkleTree_init H [d] =
     Inr \<lparr>data_blocks = [d], leaves = [Leaf d (H d)], root = Some (Leaf d (H d))\<rparr> \<and>
   get_root_hash \<lparr>data_blocks = [d], leaves = [Leaf d (H d)], root = Some (Leaf d (H d))\<rparr>
     = Some (H d) \<and>
   build_levels H [Leaf d (H d)] = [Leaf d (H d)]"
proof -
  have "build_levels H [Leaf d (H d)] = [Leaf d (H d)]"
    by (subst build_levels.simps) simp
  then show ?thesis
    by (simp add: MerkleTree_init_def build_tree_def leaf_node_def calculate_hash_def
        get_root_hash_def)
qed

text \<open>
  C9 (index noninterference). The result of \<open>verify_proof\<close> is the same for any two
  indices and any two trees: it depends only on the hash function, the data, the proof and
  the expected root.
\<close>

theorem verify_index_noninterference:
  "verify_proof H self1 d i path root_hash = verify_proof H self2 d j path root_hash"
  by (simp add: verify_proof_def)

text \<open>
  C10 (proof generation leaves the tree unchanged). In every state whose list of leaves is
  an allocated list, \<open>get_proof\<close> on the store returns what \<open>get_proof\<close> returns on
  the tree of that state, and afterwards the fields \<open>data_blocks\<close>, \<open>leaves\<close> and
  \<open>root\<close> of the tree object and every list allocated before the call, the list of
  leaves among them, are as before: the walk writes only to lists it has allocated itself.
  When the call fails with \<^verbatim>\<open>IndexError\<close> the whole state is unchanged.
\<close>

theorem get_proof_frame:
  assumes "self_leaves st < next_free st"
  shows "\<exists>st'. get_proof_st H data_index st = (get_proof H (tree_of st) data_index, st') \<and>
           self_data_blocks st' = self_data_blocks st \<and>
           self_leaves st' = self_leaves st \<and>
           self_root st' = self_root st \<and>
           (\<forall>a < next_free st. cells st' a = cells st a) \<and>
           tree_of st' = tree_of st \<and>
           (get_proof H (tree_of st) data_index = Inl IndexError \<longrightarrow> st' = st)"
proof (cases "data_index < 0 \<or> data_index \<ge> int (length (cells st (self_leaves st)))")
  case True
  then show ?thesis
    by (simp add: get_proof_st_def get_proof_def tree_of_def)
next
  case False
  obtain st' where r: "proof_levels_st H (self_leaves st) [] (nat data_index) st =
        (Inr (proof_levels H (cells st (self_leaves st)) [] (nat data_index)), st')"
    and f: "self_data_blocks st' = self_data_blocks st" "self_leaves st' = self_leaves st"
      "self_root st' = self_root st" "\<forall>a < next_free st. cells st' a = cells st a"
    using proof_levels_st_refines [OF assms] by blast
  from f assms have "tree_of st' = tree_of st"
    by (simp add: tree_of_def)
  with False r f show ?thesis
    by (simp add: get_proof_st_def get_proof_def tree_of_def)
qed

theorem get_proof_frame_witness:
  "self_leaves \<lparr>self_data_blocks = [''a'', ''b''], self_leaves = 1,
       self_root = Some (Internal (Leaf ''a'' ''a'') (Leaf ''b'' ''b'') ''ab''),
       cells = (\<lambda>a. [])(1 := [Leaf ''a'' ''a'', Leaf ''b'' ''b''],
                          2 := [Internal (Leaf ''a'' ''a'') (Leaf ''b'' ''b'') ''ab'']),
       next_free = 3\<rparr>
     < next_free \<lparr>self_data_blocks = [''a'', ''b''], self_leaves = 1,
       self_root = Some (Internal (Leaf ''a'' ''a'') (Leaf ''b'' ''b'') ''ab''),
       cells = (\<lambda>a. [])(1 := [Leaf ''a'' ''a'', Leaf ''b'' ''b''],
                          2 := [Internal (Leaf ''a'' ''a'') (Leaf ''b'' ''b'') ''ab'']),
       next_free = 3\<rparr> \<and>
   (\<exists>st'. get_proof_st id 1 \<lparr>self_data_blocks = [''a'', ''b''], self_leaves = 1,
       self_root = Some (Internal (Leaf ''a'' ''a'') (Leaf ''b'' ''b'') ''ab''),
       cells = (\<lambda>a. [])(1 := [Leaf ''a'' ''a'', Leaf ''b'' ''b''],
                          2 := [Internal (Leaf ''a'' ''a'') (Leaf ''b'' ''b'') ''ab'']),
       next_free = 3\<rparr> = (Inr [(''a'', True)], st') \<and>
      self_leaves st' = 1 \<and>
      cells st' 1 = [Leaf ''a'' ''a'', Leaf ''b'' ''b''])"
proof -
  let ?st = "\<lparr>self_data_blocks = [''a'', ''b''], self_leaves = 1,
       self_root = Some (Internal (Leaf ''a'' ''a'') (Leaf ''b'' ''b'') ''ab''),
       cells = (\<lambda>a. [])(1 := [Leaf ''a'' ''a'', Leaf ''b'' ''b''],
                          2 := [Internal (Leaf ''a'' ''a'') (Leaf ''b'' ''b'') ''ab'']),
       next_free = 3\<rparr>"
  have h: "self_leaves ?st < next_free ?st" by simp
  have t: "get_proof id (tree_of ?st) 1 = Inr [(''a'', True)]"
    using get_proof_two_leaves by (simp add: tree_of_def)
  obtain st' where "get_proof_st id 1 ?st = (get_proof id (tree_of ?st) 1, st')"
    and "self_leaves st' = self_leaves ?st"
    and "\<forall>a < next_free ?st. cells st' a = cells ?st a"
    using get_proof_frame [OF h, of id 1] by blast
  then have "get_proof_st id 1 ?st = (Inr [(''a'', True)], st') \<and> self_leaves st' = 1 \<and>
      cells st' 1 = [Leaf ''a'' ''a'', Leaf ''b'' ''b'']"
    using t by simp
  with h show ?thesis by blast
qed

end
